theory Spec2Isabelle
  imports Complex_Main
begin

section \<open>Numbers\<close>

text \<open>
  Every TypeScript \<open>number\<close> of the sources is modelled as a \<open>real\<close>: the arithmetic
  is exact, and the rounding of IEEE doubles is not part of the model. Array indices and
  the loop counter of \<open>generateParticles\<close> are natural numbers.

  Where a double rounds, overflows or underflows, the code can leave the model. The
  theorem on the windows of the showcase texts therefore names the inputs it is about:
  the five items of the showcase, and frame rates at which no duration of the scene
  underflows to 0 or overflows. The two bounds are constants of the language.
\<close>



section \<open>SparklingParticles.tsx\<close>

text \<open>
  The type \<open>Particle\<close>. The fields carry the prefix \<open>p_\<close>, since \<open>id\<close> and
  \<open>size\<close> are constants of HOL and \<open>x\<close>, \<open>y\<close> are wanted as variable names.
\<close>

record Particle =
  p_id :: nat
  p_x :: real
  p_y :: real
  p_size :: real
  p_speed :: real
  p_delay :: real
  p_twinkleSpeed :: real
  p_twinklePhase :: real

text \<open>
  \<^verbatim>\<open>const x = Math.sin(seed * 9999) * 10000; return x - Math.floor(x);\<close>
  In exact arithmetic this is the fractional part of \<open>x\<close>. It is used below at the seeds
  of the loop of \<open>generateParticles\<close> only: on doubles the subtraction rounds up to 1 for
  a negative \<open>x\<close> of tiny magnitude, and the product \<open>seed * 9999\<close> overflows for a seed
  of huge magnitude, which no seed of the loop is.
\<close>

definition seededRandom :: "real \<Rightarrow> real" where
  "seededRandom seed = (let x = sin (seed * 9999) * 10000 in x - of_int \<lfloor>x\<rfloor>)"

text \<open>The object literal pushed by iteration \<open>i\<close> of the loop of \<open>generateParticles\<close>.\<close>

definition particleAt :: "nat \<Rightarrow> Particle" where
  "particleAt i =
     \<lparr> p_id = i,
       p_x = seededRandom (real i * 1.1) * 100,
       p_y = 40 + seededRandom (real i * 2.2) * 80,
       p_size = 2 + seededRandom (real i * 3.3) * 4,
       p_speed = 0.5 + seededRandom (real i * 4.4) * 1.5,
       p_delay = seededRandom (real i * 5.5) * 90,
       p_twinkleSpeed = 0.5 + seededRandom (real i * 6.6) * 1.5,
       p_twinklePhase = seededRandom (real i * 7.7) * pi * 2 \<rparr>"

text \<open>
  \<^verbatim>\<open>for (let i = 0; i < count; i++) { particles.push({...}); }\<close>
  The count is any number (the prop \<open>particleCount\<close> is a \<open>number\<close>); the counter
  starts at 0 and the array grows at its end.
\<close>

function generateParticles_loop :: "real \<Rightarrow> nat \<Rightarrow> Particle list \<Rightarrow> Particle list" where
  "generateParticles_loop count i particles =
     (if real i < count
      then generateParticles_loop count (Suc i) (particles @ [particleAt i])
      else particles)"
  by pat_completeness auto
termination
proof (relation "measure (\<lambda>(count, i, particles). nat \<lceil>count\<rceil> - i)")
  show "wf (measure (\<lambda>(count, i, particles). nat \<lceil>count\<rceil> - i))"
    by simp
next
  fix count :: real and i :: nat and particles :: "Particle list"
  assume "real i < count"
  then have "int i < \<lceil>count\<rceil>"
    by linarith
  then show "((count, Suc i, particles @ [particleAt i]), (count, i, particles))
      \<in> measure (\<lambda>(count, i, particles). nat \<lceil>count\<rceil> - i)"
    by simp
qed

declare generateParticles_loop.simps [simp del]

definition generateParticles :: "real \<Rightarrow> Particle list" where
  "generateParticles count = generateParticles_loop count 0 []"

section \<open>The framework functions the components import\<close>

text \<open>
  \<open>interpolate\<close> and \<open>spring\<close> are imported from the rendering framework; their
  code is not part of the sources. \<open>interpolate\<close> is modelled from the contract the
  specification gives for it; \<open>spring\<close> is a parameter of every component that calls it.
\<close>

text \<open>
  Modelled from the spec: the error of section 7 that \<open>interpolate\<close> raises, and the
  edge policies of section 4.1, one for each side.
\<close>

datatype error = InvalidConfiguration

datatype ExtrapolateType = Extend | Clamp

record InterpolateOptions =
  extrapolateLeft :: ExtrapolateType
  extrapolateRight :: ExtrapolateType

text \<open>
  Modelled from the spec: the edge policy is \<open>clamp\<close> or \<open>extend\<close> per side, and
  clamping is optional (section 2), so a call that passes no option, or leaves a side out,
  extends on that side.
\<close>

definition defaultOptions :: InterpolateOptions where
  "defaultOptions = \<lparr> extrapolateLeft = Extend, extrapolateRight = Extend \<rparr>"

text \<open>
  Modelled from the spec: one segment of the piecewise-linear interpolation, the line
  through \<open>(x0, y0)\<close> and \<open>(x1, y1)\<close>, at \<open>input\<close>.
\<close>

definition lerp :: "real \<Rightarrow> real \<Rightarrow> real \<Rightarrow> real \<Rightarrow> real \<Rightarrow> real" where
  "lerp input x0 x1 y0 y1 = y0 + (input - x0) / (x1 - x0) * (y1 - y0)"

text \<open>
  Modelled from the spec: the search of the segment of the piecewise-linear interpolation
  (the framework's \<open>interpolate\<close> is not in the sources). The breakpoints after
  \<open>(x0, y0)\<close> are walked from the left; the first segment that ends at or after the input
  is used, and the last one when there is none, so that the first and the last segment
  continue their slope outside the range.
\<close>

fun interpolateSegments :: "real \<Rightarrow> real \<Rightarrow> real \<Rightarrow> real list \<Rightarrow> real list \<Rightarrow> error + real" where
  "interpolateSegments input x0 y0 (x1 # xs) (y1 # ys) =
     (if input \<le> x1 \<or> xs = [] then Inr (lerp input x0 x1 y0 y1)
      else interpolateSegments input x1 y1 xs ys)"
| "interpolateSegments input x0 y0 [] ys = Inl InvalidConfiguration"
| "interpolateSegments input x0 y0 (x1 # xs) [] = Inl InvalidConfiguration"

text \<open>
  Modelled from the spec: the edge policy of \<open>interpolate\<close> (the framework's function
  is not in the sources). Under \<open>Clamp\<close> an input outside the range is moved to the
  boundary breakpoint, so that the boundary value is held; under \<open>Extend\<close> it is kept.
\<close>

definition clampInput :: "real \<Rightarrow> real \<Rightarrow> real \<Rightarrow> InterpolateOptions \<Rightarrow> real" where
  "clampInput input lo hi options =
     (if input < lo \<and> extrapolateLeft options = Clamp then lo
      else if input > hi \<and> extrapolateRight options = Clamp then hi
      else input)"

text \<open>
  Modelled from the spec: the precondition of \<open>interpolate\<close>, section 4.1. The
  breakpoints are strictly increasing and the outputs are as many, at least two.
\<close>

definition validRanges :: "real list \<Rightarrow> real list \<Rightarrow> bool" where
  "validRanges inputRange outputRange =
     (length inputRange = length outputRange \<and> 2 \<le> length inputRange
      \<and> sorted_wrt (<) inputRange)"

text \<open>
  Modelled from the spec: \<open>interpolate\<close>, section 4.1 (the framework's function is not
  in the sources). A call that violates the precondition fails with
  \<open>InvalidConfiguration\<close>. \<open>Clamp\<close> holds the boundary value outside the range;
  \<open>Extend\<close> continues the slope of the nearest segment.
\<close>

definition interpolate :: "real \<Rightarrow> real list \<Rightarrow> real list \<Rightarrow> InterpolateOptions \<Rightarrow> error + real" where
  "interpolate input inputRange outputRange options =
     (if \<not> validRanges inputRange outputRange then Inl InvalidConfiguration
      else interpolateSegments
             (clampInput input (hd inputRange) (last inputRange) options)
             (hd inputRange) (hd outputRange) (tl inputRange) (tl outputRange))"

text \<open>
  The argument \<open>config\<close> of \<open>spring\<close>; a field the call leaves out is \<open>None\<close>.
\<close>

record SpringConfig =
  damping :: real
  stiffness :: "real option"
  mass :: "real option"

text \<open>
  \<open>spring({frame, fps, config, durationInFrames})\<close>: the four fields of the argument
  object, in this order.
\<close>

type_synonym spring_fn = "real \<Rightarrow> real \<Rightarrow> SpringConfig \<Rightarrow> real \<Rightarrow> real"

section \<open>ProductShowcase (part 001)\<close>


text \<open>What a rendered \<open>TextSlide\<close> shows: the container style and the two texts.\<close>

record TextSlideStyle =
  ts_opacity :: real
  ts_translateY :: real
  ts_title :: string
  ts_subtitle :: string

definition slideDuration :: "real \<Rightarrow> real" where
  "slideDuration fps = 6.8 * fps"

definition animationDuration :: "real \<Rightarrow> real" where
  "animationDuration fps = 0.5 * fps"

definition slideStart :: "nat \<Rightarrow> real \<Rightarrow> real" where
  "slideStart index fps = real index * slideDuration fps"

text \<open>
  \<^verbatim>\<open>const slideEnd = slideStart + slideDuration;\<close>
  In exact arithmetic this is \<open>(index + 1) * slideDuration\<close>, the start of the next
  slide. On doubles the sum and the product round apart from index 5 on, so that the end
  of a slide can lie above the start of the next one; up to index 4, the five items of the
  showcase, the two are the same double.
\<close>

definition slideEnd :: "nat \<Rightarrow> real \<Rightarrow> real" where
  "slideEnd index fps = slideStart index fps + slideDuration fps"

definition isActive :: "nat \<Rightarrow> real \<Rightarrow> real \<Rightarrow> bool" where
  "isActive index frame fps = (frame \<ge> slideStart index fps \<and> frame < slideEnd index fps)"

definition entranceProgress :: "spring_fn \<Rightarrow> nat \<Rightarrow> real \<Rightarrow> real \<Rightarrow> real" where
  "entranceProgress spring index frame fps =
     (let localFrame = frame - slideStart index fps
      in spring localFrame fps \<lparr> damping = 100, stiffness = None, mass = Some 0.5 \<rparr>
           (animationDuration fps))"

text \<open>\<open>TextSlide\<close>: \<open>Inr None\<close> is the \<open>null\<close> it returns outside its window.\<close>

definition TextSlide ::
  "spring_fn \<Rightarrow> string \<Rightarrow> string \<Rightarrow> nat \<Rightarrow> real \<Rightarrow> real \<Rightarrow> error + TextSlideStyle option" where
  "TextSlide spring ttl sub index frame fps =
     (if \<not> isActive index frame fps then Inr None
      else
        let localFrame = frame - slideStart index fps;
            progress = entranceProgress spring index frame fps
        in case interpolate localFrame
                  [slideDuration fps - animationDuration fps, slideDuration fps] [1, 0]
                  \<lparr> extrapolateLeft = Clamp, extrapolateRight = Clamp \<rparr> of
             Inl e \<Rightarrow> Inl e
           | Inr exitOpacity \<Rightarrow>
               (case interpolate progress [0, 1] [30, 0] defaultOptions of
                  Inl e \<Rightarrow> Inl e
                | Inr translateY \<Rightarrow>
                    Inr (Some \<lparr> ts_opacity = progress * exitOpacity,
                                ts_translateY = translateY,
                                ts_title = ttl, ts_subtitle = sub \<rparr>)))"



section \<open>FeaturesScene.tsx\<close>

record FeatureItemStyle =
  fi_opacity :: real
  fi_translateX :: real
  fi_glowOpacity :: real
  fi_text :: string

definition delay :: "nat \<Rightarrow> real \<Rightarrow> real" where
  "delay index fps = (1.5 + real index * 2) * fps"

definition itemSpring :: "spring_fn \<Rightarrow> nat \<Rightarrow> real \<Rightarrow> real \<Rightarrow> real" where
  "itemSpring spring index frame fps =
     spring (frame - delay index fps) fps
       \<lparr> damping = 15, stiffness = Some 100, mass = None \<rparr> (1.5 * fps)"

definition FeatureItem ::
  "spring_fn \<Rightarrow> string \<Rightarrow> nat \<Rightarrow> real \<Rightarrow> real \<Rightarrow> error + FeatureItemStyle" where
  "FeatureItem spring txt index frame fps =
     (let progress = max 0 (itemSpring spring index frame fps)
      in case interpolate progress [0, 1] [-50, 0] defaultOptions of
           Inl e \<Rightarrow> Inl e
         | Inr translateX \<Rightarrow>
             (case interpolate (frame - delay index fps) [0, 0.5 * fps, 1.5 * fps] [0, 0.8, 0]
                     \<lparr> extrapolateLeft = Clamp, extrapolateRight = Clamp \<rparr> of
                Inl e \<Rightarrow> Inl e
              | Inr glowOpacity \<Rightarrow>
                  Inr \<lparr> fi_opacity = progress, fi_translateX = translateX,
                        fi_glowOpacity = glowOpacity, fi_text = txt \<rparr>))"

text \<open>The line under the title of \<open>FeaturesScene\<close>.\<close>

definition FeaturesScene_lineSpring :: "spring_fn \<Rightarrow> real \<Rightarrow> real \<Rightarrow> real" where
  "FeaturesScene_lineSpring spring frame fps =
     spring (frame - 0.5 * fps) fps \<lparr> damping = 100, stiffness = None, mass = None \<rparr> (1 * fps)"

definition FeaturesScene_lineWidth :: "spring_fn \<Rightarrow> real \<Rightarrow> real \<Rightarrow> error + real" where
  "FeaturesScene_lineWidth spring frame fps =
     interpolate (max 0 (FeaturesScene_lineSpring spring frame fps)) [0, 1] [0, 120] defaultOptions"

section \<open>IntroScene.tsx\<close>

definition taglineSpring :: "spring_fn \<Rightarrow> real \<Rightarrow> real \<Rightarrow> real" where
  "taglineSpring spring frame fps =
     spring (frame - 1 * fps) fps \<lparr> damping = 200, stiffness = None, mass = None \<rparr> (1.5 * fps)"

definition taglineOpacity :: "spring_fn \<Rightarrow> real \<Rightarrow> real \<Rightarrow> real" where
  "taglineOpacity spring frame fps = max 0 (taglineSpring spring frame fps)"

definition taglineTranslateY :: "spring_fn \<Rightarrow> real \<Rightarrow> real \<Rightarrow> error + real" where
  "taglineTranslateY spring frame fps =
     interpolate (max 0 (taglineSpring spring frame fps)) [0, 1] [30, 0] defaultOptions"

definition lineProgress :: "spring_fn \<Rightarrow> real \<Rightarrow> real \<Rightarrow> real" where
  "lineProgress spring frame fps =
     spring (frame - 2 * fps) fps \<lparr> damping = 100, stiffness = Some 80, mass = None \<rparr> (2 * fps)"

definition lineWidth :: "spring_fn \<Rightarrow> real \<Rightarrow> real \<Rightarrow> error + real" where
  "lineWidth spring frame fps =
     interpolate (max 0 (lineProgress spring frame fps)) [0, 1] [0, 200] defaultOptions"

definition lineOpacity :: "spring_fn \<Rightarrow> real \<Rightarrow> real \<Rightarrow> real" where
  "lineOpacity spring frame fps = max 0 (lineProgress spring frame fps)"

section \<open>OutroScene.tsx\<close>

definition ctaSpring :: "spring_fn \<Rightarrow> real \<Rightarrow> real \<Rightarrow> real" where
  "ctaSpring spring frame fps =
     spring (frame - 1 * fps) fps \<lparr> damping = 200, stiffness = None, mass = None \<rparr> (1.5 * fps)"

definition ctaOpacity :: "spring_fn \<Rightarrow> real \<Rightarrow> real \<Rightarrow> real" where
  "ctaOpacity spring frame fps = max 0 (ctaSpring spring frame fps)"

definition ctaTranslateY :: "spring_fn \<Rightarrow> real \<Rightarrow> real \<Rightarrow> error + real" where
  "ctaTranslateY spring frame fps =
     interpolate (max 0 (ctaSpring spring frame fps)) [0, 1] [30, 0] defaultOptions"

section \<open>ParfumSaraVideo and Root.tsx\<close>

definition introSceneDuration :: "real \<Rightarrow> real" where
  "introSceneDuration fps = 8 * fps"

definition showcaseDuration :: "real \<Rightarrow> real" where
  "showcaseDuration fps = 34 * fps"

definition outroDuration :: "real \<Rightarrow> real" where
  "outroDuration fps = 8 * fps"

definition transitionDuration :: "real \<Rightarrow> real" where
  "transitionDuration fps = 1 * fps"

definition audioFadeInDuration :: "real \<Rightarrow> real" where
  "audioFadeInDuration fps = 2 * fps"

definition audioFadeOutStart :: "real \<Rightarrow> real \<Rightarrow> real" where
  "audioFadeOutStart fps durationInFrames = durationInFrames - 3 * fps"

text \<open>The callback \<open>volume={(f) => ...}\<close> of the background music.\<close>

definition volume :: "real \<Rightarrow> real \<Rightarrow> real \<Rightarrow> error + real" where
  "volume fps durationInFrames f =
     (if f < audioFadeInDuration fps
      then interpolate f [0, audioFadeInDuration fps] [0, 0.7]
             \<lparr> extrapolateLeft = Extend, extrapolateRight = Clamp \<rparr>
      else if f \<ge> audioFadeOutStart fps durationInFrames
      then interpolate f [audioFadeOutStart fps durationInFrames, durationInFrames] [0.7, 0]
             \<lparr> extrapolateLeft = Clamp, extrapolateRight = Clamp \<rparr>
      else Inr 0.7)"

definition VIDEO_FPS :: real where
  "VIDEO_FPS = 30"

definition VIDEO_DURATION_IN_FRAMES :: real where
  "VIDEO_DURATION_IN_FRAMES = 50 * VIDEO_FPS"

section \<open>Particle generation: what the loop builds\<close>

lemma seededRandom_range: "0 \<le> seededRandom seed \<and> seededRandom seed < 1"
  unfolding seededRandom_def Let_def by linarith

lemma generateParticles_loop_eq:
  "generateParticles_loop count i ps = ps @ map particleAt [i ..< nat \<lceil>count\<rceil>]"
proof (induction count i ps rule: generateParticles_loop.induct)
  case (1 count i particles)
  show ?case
  proof (cases "real i < count")
    case True
    then have lt: "i < nat \<lceil>count\<rceil>"
      by linarith
    have "generateParticles_loop count i particles
        = generateParticles_loop count (Suc i) (particles @ [particleAt i])"
      using True by (simp add: generateParticles_loop.simps [of count i particles])
    also have "\<dots> = (particles @ [particleAt i]) @ map particleAt [Suc i ..< nat \<lceil>count\<rceil>]"
      using "1.IH" [OF True] .
    also have "\<dots> = particles @ map particleAt [i ..< nat \<lceil>count\<rceil>]"
      using lt by (simp add: upt_conv_Cons)
    finally show ?thesis .
  next
    case False
    then have "nat \<lceil>count\<rceil> \<le> i"
      by linarith
    then show ?thesis
      using False by (simp add: generateParticles_loop.simps [of count i particles])
  qed
qed

lemma generateParticles_eq: "generateParticles count = map particleAt [0 ..< nat \<lceil>count\<rceil>]"
  by (simp add: generateParticles_def generateParticles_loop_eq)

lemma generateParticles_nth:
  assumes "real i < count"
  shows "i < length (generateParticles count)"
    and "generateParticles count ! i = particleAt i"
proof -
  from assms have lt: "i < nat \<lceil>count\<rceil>"
    by linarith
  then show "i < length (generateParticles count)"
    by (simp add: generateParticles_eq)
  from lt show "generateParticles count ! i = particleAt i"
    by (simp add: generateParticles_eq)
qed

section \<open>Interpolation\<close>

lemma lerp_left: "lerp x0 x0 x1 y0 y1 = y0"
  by (simp add: lerp_def)

lemma lerp_right: "x0 \<noteq> x1 \<Longrightarrow> lerp x1 x0 x1 y0 y1 = y1"
  by (simp add: lerp_def)

lemma lerp_mono:
  assumes "x0 < x1" "a \<le> b" "y0 \<le> y1"
  shows "lerp a x0 x1 y0 y1 \<le> lerp b x0 x1 y0 y1"
proof -
  have le: "(a - x0) / (x1 - x0) \<le> (b - x0) / (x1 - x0)"
    by (rule divide_right_mono) (use assms in simp_all)
  have "0 \<le> y1 - y0"
    using assms by simp
  with le have "(a - x0) / (x1 - x0) * (y1 - y0) \<le> (b - x0) / (x1 - x0) * (y1 - y0)"
    by (rule mult_right_mono)
  then show ?thesis
    unfolding lerp_def by linarith
qed

lemma lerp_antimono:
  assumes "x0 < x1" "a \<le> b" "y1 \<le> y0"
  shows "lerp b x0 x1 y0 y1 \<le> lerp a x0 x1 y0 y1"
proof -
  have le: "(a - x0) / (x1 - x0) \<le> (b - x0) / (x1 - x0)"
    by (rule divide_right_mono) (use assms in simp_all)
  have "y1 - y0 \<le> 0"
    using assms by simp
  with le have "(b - x0) / (x1 - x0) * (y1 - y0) \<le> (a - x0) / (x1 - x0) * (y1 - y0)"
    by (rule mult_right_mono_neg)
  then show ?thesis
    unfolding lerp_def by linarith
qed

lemma interpolateSegments_closed:
  assumes "sorted_wrt (<) (x0 # xs)" and "length xs = length ys" and "k < length xs"
    and "k = 0 \<or> (x0 # xs) ! k \<le> input"
    and "Suc k = length xs \<or> input \<le> (x0 # xs) ! Suc k"
  shows "interpolateSegments input x0 y0 xs ys
    = Inr (lerp input ((x0 # xs) ! k) ((x0 # xs) ! Suc k) ((y0 # ys) ! k) ((y0 # ys) ! Suc k))"
  using assms
proof (induction xs arbitrary: x0 y0 ys k)
  case Nil
  then show ?case by simp
next
  case (Cons x1 xs')
  from Cons.prems(2) obtain y1 ys' where ys: "ys = y1 # ys'" and len: "length xs' = length ys'"
    by (cases ys) auto
  from Cons.prems(1) have x01: "x0 < x1" and sorted': "sorted_wrt (<) (x1 # xs')"
    by auto
  show ?case
  proof (cases k)
    case 0
    with Cons.prems(5) have "input \<le> x1 \<or> xs' = []"
      by auto
    then show ?thesis
      using 0 ys by auto
  next
    case (Suc k')
    with Cons.prems(3) have k': "k' < length xs'"
      by simp
    from Suc Cons.prems(4) have lo: "(x1 # xs') ! k' \<le> input"
      by simp
    from Suc Cons.prems(5) have hi: "Suc k' = length xs' \<or> input \<le> (x1 # xs') ! Suc k'"
      by simp
    have ge: "x1 \<le> (x1 # xs') ! k'"
    proof (cases k')
      case 0
      then show ?thesis by simp
    next
      case (Suc j)
      with k' have "xs' ! j \<in> set xs'"
        by simp
      with sorted' have "x1 < xs' ! j"
        by auto
      with Suc show ?thesis by simp
    qed
    show ?thesis
    proof (cases "input \<le> x1")
      case True
      with lo ge have eq: "input = x1" and at: "(x1 # xs') ! k' = x1"
        by auto
      have "k' = 0"
      proof (rule ccontr)
        assume "k' \<noteq> 0"
        then obtain j where j: "k' = Suc j"
          by (cases k') auto
        with k' have "xs' ! j \<in> set xs'"
          by simp
        with sorted' have "x1 < xs' ! j"
          by auto
        with at j show False by simp
      qed
      with True eq x01 Suc ys k' show ?thesis
        by (cases xs'; cases ys') (auto simp: lerp_left lerp_right)
    next
      case False
      from k' have "xs' \<noteq> []"
        by auto
      with False have "interpolateSegments input x0 y0 (x1 # xs') ys
          = interpolateSegments input x1 y1 xs' ys'"
        using ys by simp
      also have "\<dots> = Inr (lerp input ((x1 # xs') ! k') ((x1 # xs') ! Suc k')
            ((y1 # ys') ! k') ((y1 # ys') ! Suc k'))"
        using Cons.IH [OF sorted' len k' _ hi] lo by blast
      finally show ?thesis
        using Suc ys by simp
    qed
  qed
qed

lemma interpolate_invalid:
  "\<not> validRanges xs ys \<Longrightarrow> interpolate input xs ys opts = Inl InvalidConfiguration"
  by (simp add: interpolate_def)

lemma sorted_nth_less:
  "sorted_wrt (<) (xs :: real list) \<Longrightarrow> i < j \<Longrightarrow> j < length xs \<Longrightarrow> xs ! i < xs ! j"
  by (simp add: sorted_wrt_iff_nth_less)

lemma sorted_nth_le:
  "sorted_wrt (<) (xs :: real list) \<Longrightarrow> i \<le> j \<Longrightarrow> j < length xs \<Longrightarrow> xs ! i \<le> xs ! j"
  using sorted_nth_less [of xs i j] by (cases "i = j") auto

lemma interpolate_closed:
  assumes "validRanges xs ys" and "Suc k < length xs"
    and "c = clampInput input (hd xs) (last xs) opts"
    and "k = 0 \<or> xs ! k \<le> c"
    and "Suc (Suc k) = length xs \<or> c \<le> xs ! Suc k"
  shows "interpolate input xs ys opts
    = Inr (lerp c (xs ! k) (xs ! Suc k) (ys ! k) (ys ! Suc k))"
proof -
  from assms(1) have len: "length xs = length ys" and two: "2 \<le> length xs"
    and srt: "sorted_wrt (<) xs"
    by (simp_all add: validRanges_def)
  from two len have xs: "xs = hd xs # tl xs" and ys: "ys = hd ys # tl ys"
    by (cases xs; cases ys; simp)+
  have srt': "sorted_wrt (<) (hd xs # tl xs)"
    using srt xs by simp
  have len': "length (tl xs) = length (tl ys)"
    using len by simp
  have k': "k < length (tl xs)"
    using assms(2) by simp
  have lo: "k = 0 \<or> (hd xs # tl xs) ! k \<le> c"
    using assms(4) xs by simp
  have hi: "Suc k = length (tl xs) \<or> c \<le> (hd xs # tl xs) ! Suc k"
    using assms(5) assms(2) xs by auto
  have "interpolate input xs ys opts = interpolateSegments c (hd xs) (hd ys) (tl xs) (tl ys)"
    using assms(1,3) by (simp add: interpolate_def)
  also have "\<dots> = Inr (lerp c ((hd xs # tl xs) ! k) ((hd xs # tl xs) ! Suc k)
      ((hd ys # tl ys) ! k) ((hd ys # tl ys) ! Suc k))"
    by (rule interpolateSegments_closed [OF srt' len' k' lo hi])
  finally show ?thesis
    using xs ys by simp
qed

lemma valid_hd_last:
  assumes "validRanges xs ys"
  shows "hd xs = xs ! 0" and "last xs = xs ! (length xs - 1)"
    and "hd ys = ys ! 0" and "last ys = ys ! (length ys - 1)"
    and "k < length xs \<Longrightarrow> hd xs \<le> xs ! k" and "k < length xs \<Longrightarrow> xs ! k \<le> last xs"
    and "hd xs < last xs"
proof -
  from assms have len: "length xs = length ys" and two: "2 \<le> length xs"
    and srt: "sorted_wrt (<) xs"
    by (simp_all add: validRanges_def)
  from two have ne: "xs \<noteq> []" by auto
  from two len have ne': "ys \<noteq> []" by auto
  show h: "hd xs = xs ! 0" using ne by (simp add: hd_conv_nth)
  show l: "last xs = xs ! (length xs - 1)" using ne by (simp add: last_conv_nth)
  show "hd ys = ys ! 0" using ne' by (simp add: hd_conv_nth)
  show "last ys = ys ! (length ys - 1)" using ne' by (simp add: last_conv_nth)
  show "k < length xs \<Longrightarrow> hd xs \<le> xs ! k"
    using sorted_nth_le [OF srt, of 0 k] h by simp
  show "k < length xs \<Longrightarrow> xs ! k \<le> last xs"
    using sorted_nth_le [OF srt, of k "length xs - 1"] l two by simp
  show "hd xs < last xs"
    using sorted_nth_less [OF srt, of 0 "length xs - 1"] h l two by simp
qed

lemma interpolate_segment:
  assumes "validRanges xs ys" and "Suc k < length xs"
    and "xs ! k \<le> input" and "input \<le> xs ! Suc k"
  shows "interpolate input xs ys opts
    = Inr (lerp input (xs ! k) (xs ! Suc k) (ys ! k) (ys ! Suc k))"
proof -
  have "hd xs \<le> input"
    using valid_hd_last(5) [OF assms(1), of k] assms(2,3) by simp
  moreover have "input \<le> last xs"
    using valid_hd_last(6) [OF assms(1), of "Suc k"] assms(2,4) by simp
  ultimately have c: "input = clampInput input (hd xs) (last xs) opts"
    by (simp add: clampInput_def)
  show ?thesis
    using interpolate_closed [OF assms(1,2) c] assms(3,4) by simp
qed

lemma interpolate_breakpoint:
  assumes "validRanges xs ys" and "k < length xs"
  shows "interpolate (xs ! k) xs ys opts = Inr (ys ! k)"
proof (cases "Suc k < length xs")
  case True
  then show ?thesis
    using interpolate_segment [OF assms(1) True, of "xs ! k" opts]
      sorted_nth_le [of xs k "Suc k"] assms(1)
    by (simp add: lerp_left validRanges_def)
next
  case False
  with assms have two: "2 \<le> length xs" and k: "k = Suc (k - 1)" and lt: "Suc (k - 1) < length xs"
    by (auto simp: validRanges_def)
  have "xs ! (k - 1) < xs ! Suc (k - 1)"
    using sorted_nth_less [of xs "k - 1" "Suc (k - 1)"] assms(1) lt
    by (simp add: validRanges_def)
  then show ?thesis
    using interpolate_segment [OF assms(1) lt, of "xs ! k" opts] k
    by (simp add: lerp_right)
qed

lemma interpolate_clamp_left:
  assumes "validRanges xs ys" and "input \<le> hd xs" and "extrapolateLeft opts = Clamp"
  shows "interpolate input xs ys opts = Inr (hd ys)"
proof -
  from assms(1) have two: "Suc 0 < length xs"
    by (simp add: validRanges_def)
  have c: "hd xs = clampInput input (hd xs) (last xs) opts"
    using assms(2,3) valid_hd_last(7) [OF assms(1)] by (auto simp: clampInput_def)
  have "hd xs \<le> xs ! Suc 0"
    using valid_hd_last(5) [OF assms(1) two] .
  then show ?thesis
    using interpolate_closed [OF assms(1) two c] valid_hd_last(1,3) [OF assms(1)]
    by (simp add: lerp_left)
qed

lemma interpolate_clamp_right:
  assumes "validRanges xs ys" and "last xs \<le> input" and "extrapolateRight opts = Clamp"
  shows "interpolate input xs ys opts = Inr (last ys)"
proof -
  from assms(1) have len: "length xs = length ys" and two: "2 \<le> length xs"
    and srt: "sorted_wrt (<) xs"
    by (simp_all add: validRanges_def)
  define k where "k = length xs - 2"
  have k: "Suc k < length xs" and kk: "Suc (Suc k) = length xs" and k1: "Suc k = length xs - 1"
    using two by (simp_all add: k_def)
  have c: "last xs = clampInput input (hd xs) (last xs) opts"
    using assms(2,3) valid_hd_last(7) [OF assms(1)] by (auto simp: clampInput_def)
  have ne: "xs ! k \<noteq> xs ! Suc k"
    using sorted_nth_less [OF srt, of k "Suc k"] k by simp
  have "xs ! k \<le> last xs"
    using valid_hd_last(6) [OF assms(1), of k] k by simp
  then have "interpolate input xs ys opts
      = Inr (lerp (last xs) (xs ! k) (xs ! Suc k) (ys ! k) (ys ! Suc k))"
    using interpolate_closed [OF assms(1) k c] kk by simp
  also have "\<dots> = Inr (ys ! Suc k)"
    using ne valid_hd_last(2) [OF assms(1)] k1 by (simp add: lerp_right)
  finally show ?thesis
    using valid_hd_last(4) [OF assms(1)] k1 len by simp
qed

lemma interpolate_extend_left:
  assumes "validRanges xs ys" and "input \<le> hd xs" and "extrapolateLeft opts = Extend"
  shows "interpolate input xs ys opts = Inr (lerp input (xs ! 0) (xs ! 1) (ys ! 0) (ys ! 1))"
proof -
  from assms(1) have two: "Suc 0 < length xs"
    by (simp add: validRanges_def)
  have c: "input = clampInput input (hd xs) (last xs) opts"
    using assms(2,3) valid_hd_last(7) [OF assms(1)] by (auto simp: clampInput_def)
  have "input \<le> xs ! Suc 0"
    using valid_hd_last(5) [OF assms(1) two] assms(2) by simp
  then show ?thesis
    using interpolate_closed [OF assms(1) two c] by simp
qed

lemma interpolate_extend_right:
  assumes "validRanges xs ys" and "last xs \<le> input" and "extrapolateRight opts = Extend"
  shows "interpolate input xs ys opts
    = Inr (lerp input (xs ! (length xs - 2)) (xs ! (length xs - 1))
             (ys ! (length xs - 2)) (ys ! (length xs - 1)))"
proof -
  from assms(1) have two: "2 \<le> length xs"
    by (simp_all add: validRanges_def)
  define k where "k = length xs - 2"
  have k: "Suc k < length xs" and kk: "Suc (Suc k) = length xs" and k1: "Suc k = length xs - 1"
    using two by (simp_all add: k_def)
  have c: "input = clampInput input (hd xs) (last xs) opts"
    using assms(2,3) valid_hd_last(7) [OF assms(1)] by (auto simp: clampInput_def)
  have lo: "k = 0 \<or> xs ! k \<le> input"
    using valid_hd_last(6) [OF assms(1), of k] k assms(2) by simp
  show ?thesis
    using interpolate_closed [OF assms(1) k c] kk lo k1 by (simp add: k_def)
qed

lemma interpolateSegments_total:
  "length xs = length ys \<Longrightarrow> xs \<noteq> [] \<Longrightarrow> \<exists>v. interpolateSegments c x0 y0 xs ys = Inr v"
proof (induction xs arbitrary: x0 y0 ys)
  case Nil
  then show ?case by simp
next
  case (Cons x1 xs')
  then obtain y1 ys' where ys: "ys = y1 # ys'" and len: "length xs' = length ys'"
    by (cases ys) auto
  show ?case
  proof (cases "c \<le> x1 \<or> xs' = []")
    case True
    then show ?thesis using ys by auto
  next
    case False
    then have "xs' \<noteq> []" by simp
    from Cons.IH [OF len this] False ys show ?thesis by simp
  qed
qed

lemma interpolate_total:
  assumes "validRanges xs ys"
  shows "\<exists>v. interpolate input xs ys opts = Inr v"
proof -
  from assms have "length (tl xs) = length (tl ys)" and "tl xs \<noteq> []"
    by (cases xs; cases ys; auto simp: validRanges_def)+
  then show ?thesis
    using assms interpolateSegments_total [of "tl xs" "tl ys"] by (simp add: interpolate_def)
qed

text \<open>
  C6. Piecewise-linear interpolation over strictly increasing breakpoints returns the
  literal output value at every breakpoint (0 at 0 and 1 at 30 for the ranges
  \<open>[0, 30]\<close> and \<open>[0, 1]\<close>); inside a segment it is the line through the segment's
  ends, hence non-decreasing where the two output values are and non-increasing where
  they are; left of the first and right of the last breakpoint, \<open>Clamp\<close> holds the
  boundary output value and \<open>Extend\<close> continues the line of the nearest segment.
\<close>

theorem interpolate_piecewise_linear:
  assumes "validRanges xs ys"
  shows "(k < length xs \<longrightarrow> interpolate (xs ! k) xs ys opts = Inr (ys ! k))
    \<and> interpolate 0 [0, 30] [0, 1] opts = Inr 0
    \<and> interpolate 30 [0, 30] [0, 1] opts = Inr 1
    \<and> (Suc j < length xs \<and> xs ! j \<le> a \<and> a \<le> b \<and> b \<le> xs ! Suc j \<longrightarrow>
         (\<exists>va vb. interpolate a xs ys opts = Inr va \<and> interpolate b xs ys opts = Inr vb
            \<and> va = lerp a (xs ! j) (xs ! Suc j) (ys ! j) (ys ! Suc j)
            \<and> (ys ! j \<le> ys ! Suc j \<longrightarrow> va \<le> vb)
            \<and> (ys ! Suc j \<le> ys ! j \<longrightarrow> vb \<le> va)))
    \<and> (inL \<le> hd xs \<longrightarrow>
         interpolate inL xs ys opts
           = Inr (case extrapolateLeft opts of
                    Clamp \<Rightarrow> hd ys
                  | Extend \<Rightarrow> lerp inL (xs ! 0) (xs ! 1) (ys ! 0) (ys ! 1)))
    \<and> (last xs \<le> inR \<longrightarrow>
         interpolate inR xs ys opts
           = Inr (case extrapolateRight opts of
                    Clamp \<Rightarrow> last ys
                  | Extend \<Rightarrow> lerp inR (xs ! (length xs - 2)) (xs ! (length xs - 1))
                      (ys ! (length xs - 2)) (ys ! (length xs - 1))))"
proof (intro conjI impI)
  assume "k < length xs"
  then show "interpolate (xs ! k) xs ys opts = Inr (ys ! k)"
    by (rule interpolate_breakpoint [OF assms])
next
  have v: "validRanges [0, 30] [0, 1]"
    by (simp add: validRanges_def)
  show "interpolate 0 [0, 30] [0, 1] opts = Inr 0"
    using interpolate_breakpoint [OF v, of 0 opts] by simp
  show "interpolate 30 [0, 30] [0, 1] opts = Inr 1"
    using interpolate_breakpoint [OF v, of 1 opts] by simp
next
  assume h: "Suc j < length xs \<and> xs ! j \<le> a \<and> a \<le> b \<and> b \<le> xs ! Suc j"
  then have j: "Suc j < length xs" and a: "xs ! j \<le> a" "a \<le> xs ! Suc j"
    and b: "xs ! j \<le> b" "b \<le> xs ! Suc j" and ab: "a \<le> b"
    by auto
  have lt: "xs ! j < xs ! Suc j"
    using sorted_nth_less [of xs j "Suc j"] assms j by (simp add: validRanges_def)
  have va: "interpolate a xs ys opts = Inr (lerp a (xs ! j) (xs ! Suc j) (ys ! j) (ys ! Suc j))"
    by (rule interpolate_segment [OF assms j a])
  have vb: "interpolate b xs ys opts = Inr (lerp b (xs ! j) (xs ! Suc j) (ys ! j) (ys ! Suc j))"
    by (rule interpolate_segment [OF assms j b])
  show "\<exists>va vb. interpolate a xs ys opts = Inr va \<and> interpolate b xs ys opts = Inr vb
      \<and> va = lerp a (xs ! j) (xs ! Suc j) (ys ! j) (ys ! Suc j)
      \<and> (ys ! j \<le> ys ! Suc j \<longrightarrow> va \<le> vb)
      \<and> (ys ! Suc j \<le> ys ! j \<longrightarrow> vb \<le> va)"
    using va vb lerp_mono [OF lt ab] lerp_antimono [OF lt ab] by simp
next
  assume "inL \<le> hd xs"
  then show "interpolate inL xs ys opts
      = Inr (case extrapolateLeft opts of
               Clamp \<Rightarrow> hd ys
             | Extend \<Rightarrow> lerp inL (xs ! 0) (xs ! 1) (ys ! 0) (ys ! 1))"
    using interpolate_clamp_left [OF assms, of inL opts]
      interpolate_extend_left [OF assms, of inL opts]
    by (cases "extrapolateLeft opts") simp_all
next
  assume "last xs \<le> inR"
  then show "interpolate inR xs ys opts
      = Inr (case extrapolateRight opts of
               Clamp \<Rightarrow> last ys
             | Extend \<Rightarrow> lerp inR (xs ! (length xs - 2)) (xs ! (length xs - 1))
                 (ys ! (length xs - 2)) (ys ! (length xs - 1)))"
    using interpolate_clamp_right [OF assms, of inR opts]
      interpolate_extend_right [OF assms, of inR opts]
    by (cases "extrapolateRight opts") simp_all
qed

theorem interpolate_piecewise_linear_witness:
  "validRanges [0, 30, 90] [0, 1, 0]
   \<and> interpolate 30 [0, 30, 90] [0, 1, 0] \<lparr> extrapolateLeft = Extend, extrapolateRight = Clamp \<rparr> = Inr 1
   \<and> interpolate 45 [0, 30, 90] [0, 1, 0] \<lparr> extrapolateLeft = Extend, extrapolateRight = Clamp \<rparr> = Inr (3 / 4)
   \<and> interpolate (-15) [0, 30, 90] [0, 1, 0] \<lparr> extrapolateLeft = Extend, extrapolateRight = Clamp \<rparr> = Inr (- (1 / 2))
   \<and> interpolate 120 [0, 30, 90] [0, 1, 0] \<lparr> extrapolateLeft = Extend, extrapolateRight = Clamp \<rparr> = Inr 0"
proof -
  have v: "validRanges [0, 30, 90] [0, 1, 0]"
    by (simp add: validRanges_def)
  show ?thesis
    using v interpolate_piecewise_linear [OF v, of 1 "\<lparr> extrapolateLeft = Extend, extrapolateRight = Clamp \<rparr>" 1 45 60 "-15" 120]
    by (auto simp: lerp_def)
qed


section \<open>The claims on the particles\<close>

lemma particleAt_ranges:
  "p_id (particleAt i) = i
   \<and> 0 \<le> p_x (particleAt i) \<and> p_x (particleAt i) < 100
   \<and> 40 \<le> p_y (particleAt i) \<and> p_y (particleAt i) < 120
   \<and> 2 \<le> p_size (particleAt i) \<and> p_size (particleAt i) < 6
   \<and> 0.5 \<le> p_speed (particleAt i) \<and> p_speed (particleAt i) < 2
   \<and> 0 \<le> p_delay (particleAt i) \<and> p_delay (particleAt i) < 90
   \<and> 0.5 \<le> p_twinkleSpeed (particleAt i) \<and> p_twinkleSpeed (particleAt i) < 2
   \<and> 0 \<le> p_twinklePhase (particleAt i) \<and> p_twinklePhase (particleAt i) < 2 * pi"
proof -
  have r: "\<And>s. 0 \<le> seededRandom s" "\<And>s. seededRandom s < 1"
    using seededRandom_range by auto
  have "seededRandom (real i * 7.7) * pi < 1 * pi"
    by (rule mult_strict_right_mono) (simp_all add: r)
  moreover have "0 \<le> seededRandom (real i * 7.7) * pi"
    by (simp add: r)
  ultimately show ?thesis
    using r(1) [of "real i * 1.1"] r(2) [of "real i * 1.1"]
      r(1) [of "real i * 2.2"] r(2) [of "real i * 2.2"]
      r(1) [of "real i * 3.3"] r(2) [of "real i * 3.3"]
      r(1) [of "real i * 4.4"] r(2) [of "real i * 4.4"]
      r(1) [of "real i * 5.5"] r(2) [of "real i * 5.5"]
      r(1) [of "real i * 6.6"] r(2) [of "real i * 6.6"]
    by (simp add: particleAt_def)
qed

text \<open>
  C7. Particle generation is deterministic: the record at index \<open>i\<close> is the same in
  every invocation whose count covers \<open>i\<close>, with the same count or with another one,
  since each attribute is \<open>seededRandom\<close> at a seed computed from \<open>i\<close> alone.
\<close>

theorem generateParticles_deterministic:
  assumes "real i < count" and "real i < count'"
  shows "i < length (generateParticles count) \<and> i < length (generateParticles count')
    \<and> generateParticles count ! i = generateParticles count' ! i
    \<and> generateParticles count ! i = particleAt i"
  using generateParticles_nth [OF assms(1)] generateParticles_nth [OF assms(2)] by simp

theorem generateParticles_deterministic_witness:
  "real 2 < 3 \<and> real 2 < 40
   \<and> generateParticles 3 ! 2 = generateParticles 40 ! 2
   \<and> generateParticles 40 ! 2 = particleAt 2"
  using generateParticles_deterministic [of 2 3 40] by auto

text \<open>
  C10. For every count and every index \<open>i\<close> below it, the attributes of particle \<open>i\<close> lie
  in fixed ranges: x in [0, 100), y in [40, 120), size in [2, 6), speed in [0.5, 2),
  delay in [0, 90), twinkleSpeed in [0.5, 2) and twinklePhase in [0, 2 pi). So the
  particle starts in the lower 60 percent of the screen or below it, is smaller than 6
  pixels and begins within the first 90 frames.
\<close>

theorem generateParticles_ranges:
  assumes "real i < count"
  shows "p_id (generateParticles count ! i) = i
   \<and> 0 \<le> p_x (generateParticles count ! i) \<and> p_x (generateParticles count ! i) < 100
   \<and> 40 \<le> p_y (generateParticles count ! i) \<and> p_y (generateParticles count ! i) < 120
   \<and> 2 \<le> p_size (generateParticles count ! i) \<and> p_size (generateParticles count ! i) < 6
   \<and> 0.5 \<le> p_speed (generateParticles count ! i) \<and> p_speed (generateParticles count ! i) < 2
   \<and> 0 \<le> p_delay (generateParticles count ! i) \<and> p_delay (generateParticles count ! i) < 90
   \<and> 0.5 \<le> p_twinkleSpeed (generateParticles count ! i)
   \<and> p_twinkleSpeed (generateParticles count ! i) < 2
   \<and> 0 \<le> p_twinklePhase (generateParticles count ! i)
   \<and> p_twinklePhase (generateParticles count ! i) < 2 * pi"
  unfolding generateParticles_nth(2) [OF assms] by (rule particleAt_ranges)

theorem generateParticles_ranges_witness:
  "real 7 < 40
   \<and> 40 \<le> p_y (generateParticles 40 ! 7) \<and> p_size (generateParticles 40 ! 7) < 6
   \<and> p_delay (generateParticles 40 ! 7) < 90"
  using generateParticles_ranges [of 7 40] by simp

section \<open>The sequence of scenes\<close>

text \<open>
  C3, as amended. The durations of the three scenes alone sum to the duration the
  composition is registered with: 8 fps + 34 fps + 8 fps = 50 fps, which is 1500 frames at
  30 frames per second. The two transitions of 1 fps each are not part of that sum: with
  them the total is 52 fps.
\<close>

theorem scene_durations_sum:
  "introSceneDuration fps + showcaseDuration fps + outroDuration fps = 50 * fps
   \<and> introSceneDuration VIDEO_FPS + showcaseDuration VIDEO_FPS + outroDuration VIDEO_FPS
       = VIDEO_DURATION_IN_FRAMES
   \<and> VIDEO_DURATION_IN_FRAMES = 1500
   \<and> introSceneDuration fps + showcaseDuration fps + outroDuration fps
       + (transitionDuration fps + transitionDuration fps) = 52 * fps"
  by (simp add: introSceneDuration_def showcaseDuration_def outroDuration_def
      transitionDuration_def VIDEO_FPS_def VIDEO_DURATION_IN_FRAMES_def)

text \<open>
  C3 as stated fails: at 30 frames per second the scene durations plus the two transition
  durations are 1560 frames, not the registered 1500.
\<close>

theorem scene_durations_with_transitions_counterexample:
  "introSceneDuration VIDEO_FPS + showcaseDuration VIDEO_FPS + outroDuration VIDEO_FPS
     + (transitionDuration VIDEO_FPS + transitionDuration VIDEO_FPS)
   \<noteq> VIDEO_DURATION_IN_FRAMES"
  by (simp add: introSceneDuration_def showcaseDuration_def outroDuration_def
      transitionDuration_def VIDEO_FPS_def VIDEO_DURATION_IN_FRAMES_def)



section \<open>The gain of the background music\<close>

lemma valid_pair: "x0 < x1 \<Longrightarrow> validRanges [x0, x1] [y0, y1]"
  by (simp add: validRanges_def)

lemma interpolate_pair_inside:
  assumes "x0 < x1" and "x0 \<le> input" and "input \<le> x1"
  shows "interpolate input [x0, x1] [y0, y1] opts = Inr (lerp input x0 x1 y0 y1)"
  using interpolate_segment [where xs = "[x0, x1]" and ys = "[y0, y1]" and k = 0
      and input = input and opts = opts] valid_pair [OF assms(1)] assms(2,3)
  by simp

lemma interpolate_pair_left:
  assumes "x0 < x1" and "input \<le> x0"
  shows "interpolate input [x0, x1] [y0, y1] opts
    = Inr (case extrapolateLeft opts of Clamp \<Rightarrow> y0 | Extend \<Rightarrow> lerp input x0 x1 y0 y1)"
  using interpolate_clamp_left [where xs = "[x0, x1]" and ys = "[y0, y1]"
      and input = input and opts = opts]
    interpolate_extend_left [where xs = "[x0, x1]" and ys = "[y0, y1]"
      and input = input and opts = opts]
    valid_pair [OF assms(1)] assms(2)
  by (cases "extrapolateLeft opts") simp_all

lemma interpolate_pair_right:
  assumes "x0 < x1" and "x1 \<le> input"
  shows "interpolate input [x0, x1] [y0, y1] opts
    = Inr (case extrapolateRight opts of Clamp \<Rightarrow> y1 | Extend \<Rightarrow> lerp input x0 x1 y0 y1)"
  using interpolate_clamp_right [where xs = "[x0, x1]" and ys = "[y0, y1]"
      and input = input and opts = opts]
    interpolate_extend_right [where xs = "[x0, x1]" and ys = "[y0, y1]"
      and input = input and opts = opts]
    valid_pair [OF assms(1)] assms(2)
  by (cases "extrapolateRight opts") simp_all

lemma volume_fade_in:
  assumes "0 < fps" and "f < audioFadeInDuration fps"
  shows "volume fps d f = Inr (0.7 * f / audioFadeInDuration fps)"
proof -
  have pos: "0 < audioFadeInDuration fps"
    using assms(1) by (simp add: audioFadeInDuration_def)
  have "interpolate f [0, audioFadeInDuration fps] [0, 0.7]
          \<lparr> extrapolateLeft = Extend, extrapolateRight = Clamp \<rparr>
      = Inr (lerp f 0 (audioFadeInDuration fps) 0 0.7)"
  proof (cases "0 \<le> f")
    case True
    then show ?thesis
      using interpolate_pair_inside [OF pos, of f] assms(2) by simp
  next
    case False
    then show ?thesis
      using interpolate_pair_left [OF pos, of f] by simp
  qed
  then show ?thesis
    using assms(2) by (simp add: volume_def lerp_def)
qed

lemma volume_plateau:
  assumes "0 < fps" and "audioFadeInDuration fps \<le> f" and "f \<le> audioFadeOutStart fps d"
  shows "volume fps d f = Inr 0.7"
proof (cases "f = audioFadeOutStart fps d")
  case True
  have lt: "audioFadeOutStart fps d < d"
    using assms(1) by (simp add: audioFadeOutStart_def)
  show ?thesis
    using interpolate_pair_left [OF lt, of f] True assms(2) by (simp add: volume_def)
next
  case False
  then show ?thesis
    using assms(2,3) by (simp add: volume_def)
qed

lemma volume_fade_out:
  assumes "0 < fps" and "audioFadeInDuration fps \<le> f"
    and "audioFadeOutStart fps d \<le> f" and "f \<le> d"
  shows "volume fps d f = Inr (0.7 * (d - f) / (3 * fps))"
proof -
  have lt: "audioFadeOutStart fps d < d"
    using assms(1) by (simp add: audioFadeOutStart_def)
  have "lerp f (audioFadeOutStart fps d) d 0.7 0 = 0.7 * (d - f) / (3 * fps)"
    using assms(1) by (simp add: lerp_def audioFadeOutStart_def field_simps)
  then show ?thesis
    using interpolate_pair_inside [OF lt assms(3,4), of "0.7" 0] assms(2,3)
    by (simp add: volume_def)
qed

lemma volume_after_end:
  assumes "0 < fps" and "audioFadeInDuration fps \<le> f" and "d \<le> f"
  shows "volume fps d f = Inr 0"
proof -
  have lt: "audioFadeOutStart fps d < d"
    using assms(1) by (simp add: audioFadeOutStart_def)
  then have "audioFadeOutStart fps d \<le> f"
    using assms(3) by simp
  then show ?thesis
    using interpolate_pair_right [OF lt assms(3), of "0.7" 0] assms(2)
    by (simp add: volume_def)
qed

lemma volume_rising:
  assumes "0 < fps" and "a \<le> b" and "b \<le> audioFadeOutStart fps d"
  shows "\<exists>va vb. volume fps d a = Inr va \<and> volume fps d b = Inr vb \<and> va \<le> vb"
proof -
  have pos: "0 < audioFadeInDuration fps"
    using assms(1) by (simp add: audioFadeInDuration_def)
  consider "b < audioFadeInDuration fps"
    | "a < audioFadeInDuration fps" "audioFadeInDuration fps \<le> b"
    | "audioFadeInDuration fps \<le> a"
    by linarith
  then show ?thesis
  proof cases
    case 1
    then have a: "a < audioFadeInDuration fps"
      using assms(2) by simp
    have "0.7 * a / audioFadeInDuration fps \<le> 0.7 * b / audioFadeInDuration fps"
      using assms(2) pos by (simp add: divide_right_mono)
    with volume_fade_in [OF assms(1) a] volume_fade_in [OF assms(1) 1] show ?thesis
      by blast
  next
    case 2
    have "0.7 * a / audioFadeInDuration fps \<le> 0.7"
      using 2(1) pos by (simp add: field_simps)
    with volume_fade_in [OF assms(1) 2(1)] volume_plateau [OF assms(1) 2(2) assms(3)]
    show ?thesis
      by blast
  next
    case 3
    then have "audioFadeInDuration fps \<le> b" and "a \<le> audioFadeOutStart fps d"
      using assms(2,3) by simp_all
    with volume_plateau [OF assms(1) 3] volume_plateau [OF assms(1) _ assms(3)]
    have "volume fps d a = Inr 0.7" and "volume fps d b = Inr 0.7"
      by simp_all
    moreover have "(0.7 :: real) \<le> 0.7"
      by simp
    ultimately show ?thesis
      by blast
  qed
qed

lemma volume_from_plateau:
  assumes "0 < fps" and "audioFadeInDuration fps \<le> f"
  shows "volume fps d f
    = Inr (if f \<le> audioFadeOutStart fps d then 0.7
           else if f \<le> d then 0.7 * (d - f) / (3 * fps) else 0)"
proof -
  consider "f \<le> audioFadeOutStart fps d" | "audioFadeOutStart fps d < f" "f \<le> d" | "d < f"
    by linarith
  then show ?thesis
  proof cases
    case 1
    then show ?thesis
      using volume_plateau [OF assms 1] by simp
  next
    case 2
    then show ?thesis
      using volume_fade_out [OF assms _ 2(2)] by simp
  next
    case 3
    moreover have "audioFadeOutStart fps d < d"
      using assms(1) by (simp add: audioFadeOutStart_def)
    ultimately show ?thesis
      using volume_after_end [OF assms, of d] by simp
  qed
qed

lemma volume_falling:
  assumes "0 < fps" and "audioFadeInDuration fps \<le> a" and "a \<le> b"
  shows "\<exists>va vb. volume fps d a = Inr va \<and> volume fps d b = Inr vb \<and> vb \<le> va"
proof -
  define g where "g = (\<lambda>f. if f \<le> audioFadeOutStart fps d then 0.7
           else if f \<le> d then 0.7 * (d - f) / (3 * fps) else 0)"
  have b: "audioFadeInDuration fps \<le> b"
    using assms(2,3) by simp
  have va: "volume fps d a = Inr (g a)"
    using volume_from_plateau [OF assms(1,2), of d] by (simp add: g_def)
  have vb: "volume fps d b = Inr (g b)"
    using volume_from_plateau [OF assms(1) b, of d] by (simp add: g_def)
  have lt: "audioFadeOutStart fps d < d"
    using assms(1) by (simp add: audioFadeOutStart_def)
  have "g b \<le> g a"
  proof (cases "a \<le> audioFadeOutStart fps d")
    case True
    then have ga: "g a = 0.7"
      by (simp add: g_def)
    have "g b \<le> 0.7"
      using assms(1) by (simp add: g_def audioFadeOutStart_def field_simps)
    with ga show ?thesis by simp
  next
    case out: False
    show ?thesis
    proof (cases "b \<le> d")
      case True
      have "0.7 * (d - b) / (3 * fps) \<le> 0.7 * (d - a) / (3 * fps)"
        using assms(1,3) by (simp add: divide_right_mono)
      then show ?thesis
        using out True assms(3) by (simp add: g_def)
    next
      case False
      then have "g b = 0"
        using lt by (simp add: g_def)
      moreover have "0 \<le> g a"
        using assms(1) by (simp add: g_def)
      ultimately show ?thesis by simp
    qed
  qed
  with va vb show ?thesis
    by blast
qed

text \<open>
  C2, as amended. With a positive frame rate and a composition long enough for the two
  fades not to overlap, the gain of the background music is 0 at frame 0; it is 0.7 at
  every frame from the end of the fade-in window to the start of the fade-out window, the
  frame \<open>audioFadeInDuration\<close> included; it is 0 at the frame \<open>durationInFrames\<close>, where
  the fade-out window ends, which is one frame after the last frame of the composition; at
  that last frame, \<open>durationInFrames - 1\<close>, it is 0.7 / (3 fps). The fade-in is the
  line from 0 to 0.7 and the fade-out the line from 0.7 to 0, so the gain is non-decreasing
  up to the start of the fade-out and non-increasing from the end of the fade-in.
\<close>

theorem volume_fades:
  assumes "0 < fps" and "audioFadeInDuration fps \<le> audioFadeOutStart fps d"
  shows "volume fps d 0 = Inr 0
    \<and> volume fps d (audioFadeInDuration fps) = Inr 0.7
    \<and> (audioFadeInDuration fps \<le> fp \<and> fp \<le> audioFadeOutStart fps d \<longrightarrow>
         volume fps d fp = Inr 0.7)
    \<and> volume fps d d = Inr 0
    \<and> (1 \<le> 3 * fps \<longrightarrow> volume fps d (d - 1) = Inr (0.7 / (3 * fps)))
    \<and> (fi < audioFadeInDuration fps \<longrightarrow>
         volume fps d fi = Inr (0.7 * fi / audioFadeInDuration fps))
    \<and> (audioFadeOutStart fps d \<le> fo \<and> fo \<le> d \<longrightarrow>
         volume fps d fo = Inr (0.7 * (d - fo) / (3 * fps)))
    \<and> (a \<le> b \<and> b \<le> audioFadeOutStart fps d \<longrightarrow>
         (\<exists>va vb. volume fps d a = Inr va \<and> volume fps d b = Inr vb \<and> va \<le> vb))
    \<and> (audioFadeInDuration fps \<le> a' \<and> a' \<le> b' \<longrightarrow>
         (\<exists>va vb. volume fps d a' = Inr va \<and> volume fps d b' = Inr vb \<and> vb \<le> va))"
proof (intro conjI impI)
  have pos: "0 < audioFadeInDuration fps"
    using assms(1) by (simp add: audioFadeInDuration_def)
  have lt: "audioFadeOutStart fps d < d"
    using assms(1) by (simp add: audioFadeOutStart_def)
  show "volume fps d 0 = Inr 0"
    using volume_fade_in [OF assms(1) pos, of d] by simp
  show "volume fps d (audioFadeInDuration fps) = Inr 0.7"
    using volume_plateau [OF assms(1) _ assms(2)] by simp
  show "volume fps d d = Inr 0"
    using volume_after_end [OF assms(1), of d d] assms(2) lt by simp
  show "volume fps d fp = Inr 0.7"
    if "audioFadeInDuration fps \<le> fp \<and> fp \<le> audioFadeOutStart fps d"
    using volume_plateau [OF assms(1), of fp d] that by simp
  show "volume fps d (d - 1) = Inr (0.7 / (3 * fps))" if "1 \<le> 3 * fps"
  proof -
    have "audioFadeOutStart fps d \<le> d - 1"
      using that by (simp add: audioFadeOutStart_def)
    then show ?thesis
      using volume_fade_out [OF assms(1), of "d - 1" d] assms(2) by simp
  qed
  show "volume fps d fi = Inr (0.7 * fi / audioFadeInDuration fps)"
    if "fi < audioFadeInDuration fps"
    using volume_fade_in [OF assms(1) that] .
  show "volume fps d fo = Inr (0.7 * (d - fo) / (3 * fps))"
    if "audioFadeOutStart fps d \<le> fo \<and> fo \<le> d"
    using volume_fade_out [OF assms(1), of fo d] that assms(2) by simp
  show "\<exists>va vb. volume fps d a = Inr va \<and> volume fps d b = Inr vb \<and> va \<le> vb"
    if "a \<le> b \<and> b \<le> audioFadeOutStart fps d"
    using volume_rising [OF assms(1), of a b d] that by simp
  show "\<exists>va vb. volume fps d a' = Inr va \<and> volume fps d b' = Inr vb \<and> vb \<le> va"
    if "audioFadeInDuration fps \<le> a' \<and> a' \<le> b'"
    using volume_falling [OF assms(1), of a' b' d] that by simp
qed

theorem volume_fades_witness:
  "0 < VIDEO_FPS
   \<and> audioFadeInDuration VIDEO_FPS \<le> audioFadeOutStart VIDEO_FPS VIDEO_DURATION_IN_FRAMES
   \<and> volume VIDEO_FPS VIDEO_DURATION_IN_FRAMES 0 = Inr 0
   \<and> volume VIDEO_FPS VIDEO_DURATION_IN_FRAMES 60 = Inr 0.7
   \<and> volume VIDEO_FPS VIDEO_DURATION_IN_FRAMES 700 = Inr 0.7
   \<and> volume VIDEO_FPS VIDEO_DURATION_IN_FRAMES 1500 = Inr 0
   \<and> volume VIDEO_FPS VIDEO_DURATION_IN_FRAMES 1499 = Inr (7 / 900)
   \<and> volume VIDEO_FPS VIDEO_DURATION_IN_FRAMES 30 = Inr 0.35
   \<and> volume VIDEO_FPS VIDEO_DURATION_IN_FRAMES 1455 = Inr 0.35
   \<and> (\<exists>va vb. volume VIDEO_FPS VIDEO_DURATION_IN_FRAMES 10 = Inr va
        \<and> volume VIDEO_FPS VIDEO_DURATION_IN_FRAMES 20 = Inr vb \<and> va \<le> vb)
   \<and> (\<exists>va vb. volume VIDEO_FPS VIDEO_DURATION_IN_FRAMES 1420 = Inr va
        \<and> volume VIDEO_FPS VIDEO_DURATION_IN_FRAMES 1480 = Inr vb \<and> vb \<le> va)"
proof -
  have h: "0 < VIDEO_FPS"
    "audioFadeInDuration VIDEO_FPS \<le> audioFadeOutStart VIDEO_FPS VIDEO_DURATION_IN_FRAMES"
    by (simp_all add: VIDEO_FPS_def VIDEO_DURATION_IN_FRAMES_def audioFadeInDuration_def
        audioFadeOutStart_def)
  have v: "VIDEO_FPS = 30" "VIDEO_DURATION_IN_FRAMES = 1500"
    "audioFadeInDuration 30 = 60" "audioFadeOutStart 30 1500 = 1410"
    by (simp_all add: VIDEO_FPS_def VIDEO_DURATION_IN_FRAMES_def audioFadeInDuration_def
        audioFadeOutStart_def)
  show ?thesis
    using h volume_fades [OF h, where fp = 700 and fi = 30 and fo = 1455
        and a = 10 and b = 20 and a' = 1420 and b' = 1480]
    unfolding v by simp
qed

text \<open>
  C2 as stated fails at the last frame of the registered composition: at frame 1499 of
  1500, at 30 frames per second, the gain is 7/900 and not 0.
\<close>

theorem volume_last_frame_counterexample:
  "volume VIDEO_FPS VIDEO_DURATION_IN_FRAMES (VIDEO_DURATION_IN_FRAMES - 1) \<noteq> Inr 0"
proof -
  have "volume 30 1500 1499 = Inr (0.7 * (1500 - 1499) / (3 * 30))"
    by (rule volume_fade_out) (simp_all add: audioFadeInDuration_def audioFadeOutStart_def)
  then show ?thesis
    by (simp add: VIDEO_FPS_def VIDEO_DURATION_IN_FRAMES_def)
qed



section \<open>The windows of the showcase texts and the staggered springs\<close>


lemma isActive_fps_pos: "isActive i frame fps \<Longrightarrow> 0 < fps"
  by (simp add: isActive_def slideStart_def slideEnd_def slideDuration_def)










lemma isActive_shift:
  "isActive i frame fps = isActive 0 (frame - real i * slideDuration fps) fps"
  by (auto simp: isActive_def slideStart_def slideEnd_def)

lemma TextSlide_shift:
  "TextSlide spring ttl sub i frame fps
   = TextSlide spring ttl sub 0 (frame - real i * slideDuration fps) fps"
proof -
  have l: "frame - slideStart i fps = frame - real i * slideDuration fps - slideStart 0 fps"
    by (simp add: slideStart_def)
  have e: "entranceProgress spring i frame fps
      = entranceProgress spring 0 (frame - real i * slideDuration fps) fps"
    by (simp add: entranceProgress_def slideStart_def)
  show ?thesis
    unfolding TextSlide_def isActive_shift [of i frame fps] l e ..
qed

lemma delay_shift: "frame - delay i fps = frame - real i * (2 * fps) - delay 0 fps"
  by (simp add: delay_def algebra_simps)

lemma FeatureItem_shift:
  "FeatureItem spring txt i frame fps = FeatureItem spring txt 0 (frame - real i * (2 * fps)) fps"
  unfolding FeatureItem_def itemSpring_def delay_shift [of frame i fps] ..

lemma interpolate_unit_extend:
  "interpolate p [0, 1] [y0, y1] defaultOptions = Inr (y0 + p * (y1 - y0))"
proof -
  have lt: "(0 :: real) < 1"
    by simp
  consider "p \<le> 0" | "0 \<le> p" "p \<le> 1" | "1 \<le> p"
    by linarith
  then show ?thesis
  proof cases
    case 1
    then show ?thesis
      using interpolate_pair_left [OF lt, where input = p and ?y0.0 = y0 and ?y1.0 = y1
          and opts = defaultOptions]
      by (simp add: defaultOptions_def lerp_def)
  next
    case 2
    then show ?thesis
      using interpolate_pair_inside [OF lt, where input = p and ?y0.0 = y0 and ?y1.0 = y1
          and opts = defaultOptions]
      by (simp add: lerp_def)
  next
    case 3
    then show ?thesis
      using interpolate_pair_right [OF lt, where input = p and ?y0.0 = y0 and ?y1.0 = y1
          and opts = defaultOptions]
      by (simp add: defaultOptions_def lerp_def)
  qed
qed

lemma TextSlide_rendered_style:
  assumes "isActive i frame fps"
  shows "\<exists>e. interpolate (frame - real i * slideDuration fps)
          [slideDuration fps - animationDuration fps, slideDuration fps] [1, 0]
          \<lparr> extrapolateLeft = Clamp, extrapolateRight = Clamp \<rparr> = Inr e
      \<and> TextSlide spring ttl sub i frame fps
        = Inr (Some \<lparr> ts_opacity =
                         spring (frame - real i * slideDuration fps) fps
                           \<lparr> damping = 100, stiffness = None, mass = Some 0.5 \<rparr>
                           (animationDuration fps) * e,
                       ts_translateY =
                         30 - 30 * spring (frame - real i * slideDuration fps) fps
                           \<lparr> damping = 100, stiffness = None, mass = Some 0.5 \<rparr>
                           (animationDuration fps),
                       ts_title = ttl, ts_subtitle = sub \<rparr>)"
proof -
  have pos: "0 < fps"
    using assms by (rule isActive_fps_pos)
  have "slideDuration fps - animationDuration fps < slideDuration fps"
    using pos by (simp add: animationDuration_def)
  then have "validRanges [slideDuration fps - animationDuration fps, slideDuration fps] [1, 0]"
    by (rule valid_pair)
  then obtain e where e: "interpolate (frame - real i * slideDuration fps)
      [slideDuration fps - animationDuration fps, slideDuration fps] [1, 0]
      \<lparr> extrapolateLeft = Clamp, extrapolateRight = Clamp \<rparr> = Inr e"
    using interpolate_total by blast
  have "TextSlide spring ttl sub i frame fps
        = Inr (Some \<lparr> ts_opacity =
                         spring (frame - real i * slideDuration fps) fps
                           \<lparr> damping = 100, stiffness = None, mass = Some 0.5 \<rparr>
                           (animationDuration fps) * e,
                       ts_translateY =
                         30 - 30 * spring (frame - real i * slideDuration fps) fps
                           \<lparr> damping = 100, stiffness = None, mass = Some 0.5 \<rparr>
                           (animationDuration fps),
                       ts_title = ttl, ts_subtitle = sub \<rparr>)"
    using assms e
    by (simp add: TextSlide_def entranceProgress_def slideStart_def interpolate_unit_extend
        Let_def)
  with e show ?thesis
    by blast
qed

lemma FeatureItem_style:
  assumes "0 < fps"
  shows "\<exists>g. interpolate (frame - (1.5 + real i * 2) * fps) [0, 0.5 * fps, 1.5 * fps]
          [0, 0.8, 0] \<lparr> extrapolateLeft = Clamp, extrapolateRight = Clamp \<rparr> = Inr g
      \<and> FeatureItem spring txt i frame fps
        = Inr \<lparr> fi_opacity =
                   max 0 (spring (frame - (1.5 + real i * 2) * fps) fps
                     \<lparr> damping = 15, stiffness = Some 100, mass = None \<rparr> (1.5 * fps)),
                 fi_translateX =
                   - 50 + 50 * max 0 (spring (frame - (1.5 + real i * 2) * fps) fps
                     \<lparr> damping = 15, stiffness = Some 100, mass = None \<rparr> (1.5 * fps)),
                 fi_glowOpacity = g, fi_text = txt \<rparr>"
proof -
  have "validRanges [0, 0.5 * fps, 1.5 * fps] [0, 0.8, 0]"
    using assms by (simp add: validRanges_def)
  then obtain g where g: "interpolate (frame - (1.5 + real i * 2) * fps)
      [0, 0.5 * fps, 1.5 * fps] [0, 0.8, 0]
      \<lparr> extrapolateLeft = Clamp, extrapolateRight = Clamp \<rparr> = Inr g"
    using interpolate_total by blast
  have "FeatureItem spring txt i frame fps
        = Inr \<lparr> fi_opacity =
                   max 0 (spring (frame - (1.5 + real i * 2) * fps) fps
                     \<lparr> damping = 15, stiffness = Some 100, mass = None \<rparr> (1.5 * fps)),
                 fi_translateX =
                   - 50 + 50 * max 0 (spring (frame - (1.5 + real i * 2) * fps) fps
                     \<lparr> damping = 15, stiffness = Some 100, mass = None \<rparr> (1.5 * fps)),
                 fi_glowOpacity = g, fi_text = txt \<rparr>"
    using g
    by (simp add: FeatureItem_def itemSpring_def delay_def interpolate_unit_extend Let_def)
  with g show ?thesis
    by blast
qed

text \<open>
  C9. Staggering is a shift of the clock. A rendered \<open>TextSlide\<close> of index \<open>i\<close> shows the
  value of \<open>spring\<close> at \<open>frame - i * slideDuration\<close>: its vertical offset is 30 minus 30
  times that value, and its opacity is that value times the exit opacity, interpolated at
  the same shifted frame. A \<open>FeatureItem\<close> of index \<open>i\<close> shows the value of \<open>spring\<close> at
  \<open>frame - delay i\<close>, clamped at 0: it is its opacity, and its horizontal offset is 50
  times it minus 50; its glow is interpolated at the same shifted frame. The delay is
  \<open>delay i = (1.5 + i * 2) * fps\<close>, which grows by \<open>2 * fps\<close> per item, and item \<open>i\<close> at a
  frame is item 0 at the frame moved back by \<open>i\<close> times the step.
\<close>

theorem staggering_clock_shift:
  "(isActive i frame fps \<longrightarrow>
      (\<exists>e. interpolate (frame - real i * slideDuration fps)
              [slideDuration fps - animationDuration fps, slideDuration fps] [1, 0]
              \<lparr> extrapolateLeft = Clamp, extrapolateRight = Clamp \<rparr> = Inr e
         \<and> TextSlide spring ttl sub i frame fps
           = Inr (Some \<lparr> ts_opacity =
                            spring (frame - real i * slideDuration fps) fps
                              \<lparr> damping = 100, stiffness = None, mass = Some 0.5 \<rparr>
                              (animationDuration fps) * e,
                          ts_translateY =
                            30 - 30 * spring (frame - real i * slideDuration fps) fps
                              \<lparr> damping = 100, stiffness = None, mass = Some 0.5 \<rparr>
                              (animationDuration fps),
                          ts_title = ttl, ts_subtitle = sub \<rparr>)))
   \<and> (0 < fps \<longrightarrow>
      (\<exists>g. interpolate (frame - (1.5 + real i * 2) * fps) [0, 0.5 * fps, 1.5 * fps]
              [0, 0.8, 0] \<lparr> extrapolateLeft = Clamp, extrapolateRight = Clamp \<rparr> = Inr g
         \<and> FeatureItem spring txt i frame fps
           = Inr \<lparr> fi_opacity =
                      max 0 (spring (frame - (1.5 + real i * 2) * fps) fps
                        \<lparr> damping = 15, stiffness = Some 100, mass = None \<rparr> (1.5 * fps)),
                    fi_translateX =
                      - 50 + 50 * max 0 (spring (frame - (1.5 + real i * 2) * fps) fps
                        \<lparr> damping = 15, stiffness = Some 100, mass = None \<rparr> (1.5 * fps)),
                    fi_glowOpacity = g, fi_text = txt \<rparr>))
   \<and> entranceProgress spring i frame fps
     = spring (frame - real i * slideDuration fps) fps
         \<lparr> damping = 100, stiffness = None, mass = Some 0.5 \<rparr> (animationDuration fps)
   \<and> TextSlide spring ttl sub i frame fps
       = TextSlide spring ttl sub 0 (frame - real i * slideDuration fps) fps
   \<and> itemSpring spring i frame fps
       = spring (frame - delay i fps) fps
           \<lparr> damping = 15, stiffness = Some 100, mass = None \<rparr> (1.5 * fps)
   \<and> delay i fps = (1.5 + real i * 2) * fps
   \<and> delay i fps - delay 0 fps = real i * (2 * fps)
   \<and> FeatureItem spring txt i frame fps
       = FeatureItem spring txt 0 (frame - real i * (2 * fps)) fps"
proof (intro conjI impI)
  assume "isActive i frame fps"
  then show "\<exists>e. interpolate (frame - real i * slideDuration fps)
              [slideDuration fps - animationDuration fps, slideDuration fps] [1, 0]
              \<lparr> extrapolateLeft = Clamp, extrapolateRight = Clamp \<rparr> = Inr e
         \<and> TextSlide spring ttl sub i frame fps
           = Inr (Some \<lparr> ts_opacity =
                            spring (frame - real i * slideDuration fps) fps
                              \<lparr> damping = 100, stiffness = None, mass = Some 0.5 \<rparr>
                              (animationDuration fps) * e,
                          ts_translateY =
                            30 - 30 * spring (frame - real i * slideDuration fps) fps
                              \<lparr> damping = 100, stiffness = None, mass = Some 0.5 \<rparr>
                              (animationDuration fps),
                          ts_title = ttl, ts_subtitle = sub \<rparr>)"
    by (rule TextSlide_rendered_style)
next
  assume "0 < fps"
  then show "\<exists>g. interpolate (frame - (1.5 + real i * 2) * fps) [0, 0.5 * fps, 1.5 * fps]
              [0, 0.8, 0] \<lparr> extrapolateLeft = Clamp, extrapolateRight = Clamp \<rparr> = Inr g
         \<and> FeatureItem spring txt i frame fps
           = Inr \<lparr> fi_opacity =
                      max 0 (spring (frame - (1.5 + real i * 2) * fps) fps
                        \<lparr> damping = 15, stiffness = Some 100, mass = None \<rparr> (1.5 * fps)),
                    fi_translateX =
                      - 50 + 50 * max 0 (spring (frame - (1.5 + real i * 2) * fps) fps
                        \<lparr> damping = 15, stiffness = Some 100, mass = None \<rparr> (1.5 * fps)),
                    fi_glowOpacity = g, fi_text = txt \<rparr>"
    by (rule FeatureItem_style)
next
  show "entranceProgress spring i frame fps
     = spring (frame - real i * slideDuration fps) fps
         \<lparr> damping = 100, stiffness = None, mass = Some 0.5 \<rparr> (animationDuration fps)"
    by (simp add: entranceProgress_def slideStart_def)
  show "TextSlide spring ttl sub i frame fps
       = TextSlide spring ttl sub 0 (frame - real i * slideDuration fps) fps"
    by (rule TextSlide_shift)
  show "itemSpring spring i frame fps
       = spring (frame - delay i fps) fps
           \<lparr> damping = 15, stiffness = Some 100, mass = None \<rparr> (1.5 * fps)"
    by (simp add: itemSpring_def)
  show "delay i fps = (1.5 + real i * 2) * fps"
    by (simp add: delay_def)
  show "delay i fps - delay 0 fps = real i * (2 * fps)"
    by (simp add: delay_def algebra_simps)
  show "FeatureItem spring txt i frame fps
       = FeatureItem spring txt 0 (frame - real i * (2 * fps)) fps"
    by (rule FeatureItem_shift)
qed

theorem staggering_clock_shift_witness:
  "isActive 1 250 30
   \<and> (\<exists>e. TextSlide (\<lambda>f r c d. f) ''t'' ''s'' 1 250 30
          = Inr (Some \<lparr> ts_opacity = 46 * e, ts_translateY = - 1350,
                         ts_title = ''t'', ts_subtitle = ''s'' \<rparr>))
   \<and> (\<exists>g. FeatureItem (\<lambda>f r c d. f) ''t'' 2 200 30
          = Inr \<lparr> fi_opacity = 35, fi_translateX = 1700,
                   fi_glowOpacity = g, fi_text = ''t'' \<rparr>)"
proof -
  have a: "isActive 1 250 30"
    by (simp add: isActive_def slideStart_def slideEnd_def slideDuration_def)
  have 1: "\<exists>e. TextSlide (\<lambda>f r c d. f) ''t'' ''s'' 1 250 30
          = Inr (Some \<lparr> ts_opacity = 46 * e, ts_translateY = - 1350,
                         ts_title = ''t'', ts_subtitle = ''s'' \<rparr>)"
    using a staggering_clock_shift [where spring = "\<lambda>f r c d. f" and ttl = "''t''"
        and sub = "''s''" and ?txt = "''t''" and i = 1 and frame = 250 and fps = 30]
    by (auto simp: slideDuration_def)
  have 2: "\<exists>g. FeatureItem (\<lambda>f r c d. f) ''t'' 2 200 30
          = Inr \<lparr> fi_opacity = 35, fi_translateX = 1700,
                   fi_glowOpacity = g, fi_text = ''t'' \<rparr>"
    using staggering_clock_shift [where spring = "\<lambda>f r c d. f" and ttl = "''t''"
        and sub = "''s''" and ?txt = "''t''" and i = 2 and frame = 200 and fps = 30]
    by auto
  from a 1 2 show ?thesis
    by blast
qed

lemma interpolate_unit_at_0: "interpolate 0 [0, 1] [y0, y1] opts = Inr y0"
  using interpolate_breakpoint [where xs = "[0, 1]" and ys = "[y0, y1]" and k = 0 and opts = opts]
  by (simp add: valid_pair)

text \<open>
  C5. Let \<open>spring\<close> return a value that is at most 0 for negative elapsed frames. Then at
  every frame before the start of an entrance spring that is started later than its scene,
  the clamped progress \<open>max 0 (spring ...)\<close> is 0, at each of these call sites: the tagline
  and the line of \<open>IntroScene\<close>, the call to action of \<open>OutroScene\<close>, the line and the
  items of \<open>FeaturesScene\<close>; the values interpolated from it are at their start. The
  spring of \<open>TextSlide\<close>, which is not clamped, is never evaluated at a negative elapsed
  frame.
\<close>

theorem clamped_spring_before_start:
  assumes "\<And>f r c d. f < 0 \<Longrightarrow> spring f r c d \<le> 0"
  shows "(frame < 1 * fps \<longrightarrow>
           taglineOpacity spring frame fps = 0 \<and> taglineTranslateY spring frame fps = Inr 30)
    \<and> (frame < 2 * fps \<longrightarrow>
           lineOpacity spring frame fps = 0 \<and> lineWidth spring frame fps = Inr 0)
    \<and> (frame < 1 * fps \<longrightarrow>
           ctaOpacity spring frame fps = 0 \<and> ctaTranslateY spring frame fps = Inr 30)
    \<and> (frame < 0.5 * fps \<longrightarrow> FeaturesScene_lineWidth spring frame fps = Inr 0)
    \<and> (frame < delay i fps \<longrightarrow> max 0 (itemSpring spring i frame fps) = 0)
    \<and> (frame < delay i fps \<and> 0 < fps \<longrightarrow>
           (\<exists>s. FeatureItem spring txt i frame fps = Inr s
              \<and> fi_opacity s = 0 \<and> fi_translateX s = - 50))
    \<and> (isActive i frame fps \<longrightarrow> 0 \<le> frame - slideStart i fps)"
proof (intro conjI impI)
  have clamp: "max 0 (spring f r c d) = 0" if "f < 0" for f r c d
    using assms [OF that, of r c d] by simp
  show "taglineOpacity spring frame fps = 0" if "frame < 1 * fps"
    using that by (simp add: taglineOpacity_def taglineSpring_def clamp)
  show "taglineTranslateY spring frame fps = Inr 30" if "frame < 1 * fps"
    using that by (simp add: taglineTranslateY_def taglineSpring_def clamp interpolate_unit_at_0)
  show "lineOpacity spring frame fps = 0" if "frame < 2 * fps"
    using that by (simp add: lineOpacity_def lineProgress_def clamp)
  show "lineWidth spring frame fps = Inr 0" if "frame < 2 * fps"
    using that by (simp add: lineWidth_def lineProgress_def clamp interpolate_unit_at_0)
  show "ctaOpacity spring frame fps = 0" if "frame < 1 * fps"
    using that by (simp add: ctaOpacity_def ctaSpring_def clamp)
  show "ctaTranslateY spring frame fps = Inr 30" if "frame < 1 * fps"
    using that by (simp add: ctaTranslateY_def ctaSpring_def clamp interpolate_unit_at_0)
  show "FeaturesScene_lineWidth spring frame fps = Inr 0" if "frame < 0.5 * fps"
    using that
    by (simp add: FeaturesScene_lineWidth_def FeaturesScene_lineSpring_def clamp
        interpolate_unit_at_0)
  show p: "max 0 (itemSpring spring i frame fps) = 0" if "frame < delay i fps"
    using that by (simp add: itemSpring_def clamp)
  show "\<exists>s. FeatureItem spring txt i frame fps = Inr s
      \<and> fi_opacity s = 0 \<and> fi_translateX s = - 50"
    if h: "frame < delay i fps \<and> 0 < fps"
  proof -
    have "validRanges [0, 0.5 * fps, 1.5 * fps] [0, 0.8, 0]"
      using h by (simp add: validRanges_def)
    then obtain g where g: "interpolate (frame - delay i fps) [0, 0.5 * fps, 1.5 * fps]
        [0, 0.8, 0] \<lparr> extrapolateLeft = Clamp, extrapolateRight = Clamp \<rparr> = Inr g"
      using interpolate_total by blast
    show ?thesis
      using h p g by (simp add: FeatureItem_def interpolate_unit_at_0)
  qed
  show "0 \<le> frame - slideStart i fps" if "isActive i frame fps"
    using that by (simp add: isActive_def)
qed

theorem clamped_spring_before_start_witness:
  "taglineOpacity (\<lambda>f r c d. if f < 0 then 0 else 1) 10 30 = 0
   \<and> lineWidth (\<lambda>f r c d. if f < 0 then 0 else 1) 59 30 = Inr 0
   \<and> ctaOpacity (\<lambda>f r c d. if f < 0 then 0 else 1) 29 30 = 0
   \<and> FeaturesScene_lineWidth (\<lambda>f r c d. if f < 0 then 0 else 1) 14 30 = Inr 0
   \<and> (\<exists>s. FeatureItem (\<lambda>f r c d. if f < 0 then 0 else 1) ''t'' 2 164 30 = Inr s
        \<and> fi_opacity s = 0 \<and> fi_translateX s = - 50)
   \<and> isActive 0 164 30 \<and> 0 \<le> 164 - slideStart 0 30"
proof -
  have c: "\<And>f r c d. f < 0 \<Longrightarrow> (\<lambda>f r c d. if f < 0 then 0 else 1) f r c d \<le> (0::real)"
    by simp
  have a: "isActive 0 164 30"
    by (simp add: isActive_def slideStart_def slideEnd_def slideDuration_def)
  have 1: "taglineOpacity (\<lambda>f r c d. if f < 0 then 0 else 1) 10 30 = 0"
    using clamped_spring_before_start [of "\<lambda>f r c d. if f < 0 then 0 else 1" 10 30, OF c]
    by simp
  have 2: "lineWidth (\<lambda>f r c d. if f < 0 then 0 else 1) 59 30 = Inr 0"
    using clamped_spring_before_start [of "\<lambda>f r c d. if f < 0 then 0 else 1" 59 30, OF c]
    by simp
  have 3: "ctaOpacity (\<lambda>f r c d. if f < 0 then 0 else 1) 29 30 = 0"
    using clamped_spring_before_start [of "\<lambda>f r c d. if f < 0 then 0 else 1" 29 30, OF c]
    by simp
  have 4: "FeaturesScene_lineWidth (\<lambda>f r c d. if f < 0 then 0 else 1) 14 30 = Inr 0"
    using clamped_spring_before_start [of "\<lambda>f r c d. if f < 0 then 0 else 1" 14 30, OF c]
    by simp
  have 5: "\<exists>s. FeatureItem (\<lambda>f r c d. if f < 0 then 0 else 1) ''t'' 2 164 30 = Inr s
        \<and> fi_opacity s = 0 \<and> fi_translateX s = - 50"
    using clamped_spring_before_start
      [of "\<lambda>f r c d. if f < 0 then 0 else 1" 164 30 2 "''t''", OF c]
    by (simp add: delay_def)
  have 6: "0 \<le> 164 - slideStart 0 30"
    using a clamped_spring_before_start
      [of "\<lambda>f r c d. if f < 0 then 0 else 1" 164 30 0, OF c]
    by simp
  from 1 2 3 4 5 6 a show ?thesis
    by blast
qed


end
